theory Spec2Isabelle
  imports Complex_Main "HOL-Library.Sublist" "HOL-Library.Multiset"
begin

section \<open>Python values used by \<open>find_photo_clusters.py\<close>\<close>

text \<open>
  The script has two functions of its own, \<open>parse_time_delta\<close> and \<open>find_clusters\<close>;
  everything else it calls belongs to Python (\<open>str\<close>, \<open>float\<close>, \<open>sorted\<close>,
  \<open>datetime\<close>). This section models those library values, the next ones the two functions.

  Exceptions are values. \<open>ValueError\<close> carries its message, since the script raises it with
  two different messages and \<open>int(nan)\<close> inside \<open>timedelta\<close> raises a third.
\<close>

datatype error = ValueError string | OverflowError

subsection \<open>Strings\<close>

text \<open>
  A \<open>str\<close> is the list of its code points, for code points below 256 (one \<open>char\<close>
  each). On that range \<open>str.isspace\<close> holds for the twelve characters below and
  \<open>str.lower\<close> shifts \<open>A\<close>..\<open>Z\<close> and the Latin-1 capitals (\<open>0xC0\<close>..\<open>0xDE\<close> without
  \<open>0xD7\<close>) by 32.
\<close>

definition isspace :: "char \<Rightarrow> bool" where
  "isspace c = ((of_char c :: nat) \<in> {9, 10, 11, 12, 13, 28, 29, 30, 31, 32, 133, 160})"

definition lower_char :: "char \<Rightarrow> char" where
  "lower_char c =
     (let n = (of_char c :: nat)
      in if (65 \<le> n \<and> n \<le> 90) \<or> (192 \<le> n \<and> n \<le> 222 \<and> n \<noteq> 215)
         then char_of (n + 32) else c)"

definition lower :: "string \<Rightarrow> string" where
  "lower s = map lower_char s"

definition strip :: "string \<Rightarrow> string" where
  "strip s = rev (dropWhile isspace (rev (dropWhile isspace s)))"

text \<open>
  \<open>s.split(maxsplit=1)\<close>: runs of whitespace separate; the first run of other characters is
  the first part, and whatever follows the whitespace after it, if anything, is the second.
\<close>

definition split_maxsplit1 :: "string \<Rightarrow> string list" where
  "split_maxsplit1 s =
     (let s1 = dropWhile isspace s
      in if s1 = [] then []
         else (let tok = takeWhile (\<lambda>c. \<not> isspace c) s1;
                   rest = dropWhile isspace (dropWhile (\<lambda>c. \<not> isspace c) s1)
               in if rest = [] then [tok] else [tok, rest]))"

definition startswith :: "string \<Rightarrow> string \<Rightarrow> bool" where
  "startswith s p = (take (length p) s = p)"

subsection \<open>Floats\<close>

text \<open>
  \<open>float(s)\<close> accepts, between optional whitespace, an optional sign followed by
  \<open>inf\<close>, \<open>infinity\<close> or \<open>nan\<close> in any case, or by a decimal number: digits with single
  underscores allowed between digits, a point with digits on at least one side, and an
  optional exponent. Anything else is \<open>ValueError\<close>, here \<open>None\<close>. The whitespace that
  \<open>float\<close> skips is that of \<open>str.isspace\<close> without the four separators \<open>0x1C\<close>..\<open>0x1F\<close>.

  A finite float is a double, modelled by the rational number it stands for; \<open>Infinite\<close>
  stands for both infinities, which the script never tells apart. \<open>round_double\<close> rounds a
  rational to the nearest double, ties to the even mantissa: with \<open>e\<close> the binary exponent
  of the value, the mantissa is the value in units of \<open>2 ^ (e - 52)\<close>, or of \<open>2 ^ - 1074\<close>
  in the subnormal range, rounded to an integer, and a result of \<open>2 ^ 1024\<close> or more is
  infinite. \<open>float\<close> rounds the decimal numeral in this way, and so does a product of two
  doubles.
\<close>

datatype pyfloat = Finite rat | Infinite | NaN

function bit_length :: "int \<Rightarrow> nat" where
  "bit_length n = (if n \<le> 0 then 0 else Suc (bit_length (n div 2)))"
  by pat_completeness auto
termination
  by (relation "measure nat") auto

declare bit_length.simps [simp del]

text \<open>\<open>round_half_even_div n d\<close> is \<open>n / d\<close> rounded to an integer, ties to even, for \<open>d > 0\<close>.\<close>

definition round_half_even_div :: "int \<Rightarrow> int \<Rightarrow> int" where
  "round_half_even_div n d =
     (let q = n div d; r = n mod d
      in if 2 * r < d then q
         else if d < 2 * r then q + 1
         else if even q then q else q + 1)"

definition round_double :: "rat \<Rightarrow> pyfloat" where
  "round_double x =
     (if x = 0 then Finite 0
      else
        (let (n, d) = quotient_of \<bar>x\<bar>;
             e0 = int (bit_length n) - int (bit_length d);
             e = (if (if 0 \<le> e0 then d * 2 ^ nat e0 \<le> n else d \<le> n * 2 ^ nat (- e0))
                  then e0 else e0 - 1);
             p = max (e - 52) (- 1074);
             m = (if 0 \<le> p then round_half_even_div n (d * 2 ^ nat p)
                  else round_half_even_div (n * 2 ^ nat (- p)) d)
         in if 0 \<le> p \<and> 2 ^ 1024 \<le> m * 2 ^ nat p then Infinite
            else
              (let r = (if 0 \<le> p then of_int (m * 2 ^ nat p) else of_int m / 2 ^ nat (- p))
               in Finite (if x < 0 then - r else r))))"

definition is_digit :: "char \<Rightarrow> bool" where
  "is_digit c = (48 \<le> (of_char c :: nat) \<and> (of_char c :: nat) \<le> 57)"

definition digit_val :: "char \<Rightarrow> int" where
  "digit_val c = (of_char c :: int) - 48"

text \<open>
  \<open>digit_run v n s\<close> continues a digit part whose value so far is \<open>v\<close> over \<open>n\<close> digits:
  it reads \<open>(["_"] digit)*\<close> and returns the value, the number of digits and what is left.
\<close>

fun digit_run :: "int \<Rightarrow> nat \<Rightarrow> string \<Rightarrow> int \<times> nat \<times> string" where
  "digit_run v n [] = (v, n, [])"
| "digit_run v n [c] =
     (if is_digit c then (10 * v + digit_val c, Suc n, []) else (v, n, [c]))"
| "digit_run v n (c # d # s) =
     (if is_digit c then digit_run (10 * v + digit_val c) (Suc n) (d # s)
      else if c = CHR ''_'' \<and> is_digit d then digit_run (10 * v + digit_val d) (Suc n) s
      else (v, n, c # d # s))"

definition digitpart :: "string \<Rightarrow> (int \<times> nat \<times> string) option" where
  "digitpart s =
     (case s of [] \<Rightarrow> None
      | c # r \<Rightarrow> if is_digit c then Some (digit_run (digit_val c) 1 r) else None)"

text \<open>
  \<open>number\<close>: \<open>[digitpart] "." digitpart | digitpart ["."]\<close>. The result is the integer
  formed by all the digits, the number of digits after the point, and what is left.
\<close>

definition number :: "string \<Rightarrow> (int \<times> nat \<times> string) option" where
  "number s =
     (case digitpart s of
        Some (iv, _, r) \<Rightarrow>
          (case r of
             [] \<Rightarrow> Some (iv, 0, [])
           | c # r' \<Rightarrow>
               if c = CHR ''.'' then
                 (case digitpart r' of
                    Some (fv, fn, r'') \<Rightarrow> Some (iv * 10 ^ fn + fv, fn, r'')
                  | None \<Rightarrow> Some (iv, 0, r'))
               else Some (iv, 0, r))
      | None \<Rightarrow>
          (case s of
             [] \<Rightarrow> None
           | c # r' \<Rightarrow>
               if c = CHR ''.'' then
                 (case digitpart r' of
                    Some (fv, fn, r'') \<Rightarrow> Some (fv, fn, r'')
                  | None \<Rightarrow> None)
               else None))"

text \<open>\<open>exponent\<close>: nothing, or \<open>("e" | "E") [sign] digitpart\<close>; then the string must end.\<close>

definition exponent :: "string \<Rightarrow> int option" where
  "exponent s =
     (case s of
        [] \<Rightarrow> Some 0
      | c # r \<Rightarrow>
          if c = CHR ''e'' \<or> c = CHR ''E'' then
            (let (neg, r1) =
                   (case r of
                      [] \<Rightarrow> (False, r)
                    | x # r' \<Rightarrow> if x = CHR ''-'' then (True, r')
                                else if x = CHR ''+'' then (False, r') else (False, r))
             in case digitpart r1 of
                  Some (ev, _, []) \<Rightarrow> Some (if neg then - ev else ev)
                | _ \<Rightarrow> None)
          else None)"

definition scale10 :: "int \<Rightarrow> int \<Rightarrow> rat" where
  "scale10 m k = (if 0 \<le> k then of_int m * 10 ^ nat k else of_int m / 10 ^ nat (- k))"

definition absfloatvalue :: "string \<Rightarrow> pyfloat option" where
  "absfloatvalue s =
     (if lower s = ''inf'' \<or> lower s = ''infinity'' then Some Infinite
      else if lower s = ''nan'' then Some NaN
      else (case number s of
              None \<Rightarrow> None
            | Some (m, fn, r) \<Rightarrow>
                (case exponent r of
                   None \<Rightarrow> None
                 | Some e \<Rightarrow> Some (round_double (scale10 m (e - int fn))))))"

definition negate :: "pyfloat \<Rightarrow> pyfloat" where
  "negate x = (case x of Finite q \<Rightarrow> Finite (- q) | Infinite \<Rightarrow> Infinite | NaN \<Rightarrow> NaN)"

definition float_space :: "char \<Rightarrow> bool" where
  "float_space c = ((of_char c :: nat) \<in> {9, 10, 11, 12, 13, 32, 133, 160})"

definition py_float :: "string \<Rightarrow> pyfloat option" where
  "py_float s0 =
     (let s = rev (dropWhile float_space (rev (dropWhile float_space s0)))
      in case s of
           [] \<Rightarrow> None
         | c # r \<Rightarrow>
             if c = CHR ''-'' then map_option negate (absfloatvalue r)
             else if c = CHR ''+'' then absfloatvalue r
             else absfloatvalue s)"

subsection \<open>Durations\<close>

text \<open>
  A \<open>timedelta\<close> is a whole number of microseconds. Its constructor, given a float \<open>x\<close> for
  a unit of \<open>f\<close> microseconds, splits \<open>x\<close> into its integer part and its fraction, multiplies
  the integer part by \<open>f\<close> exactly and the fraction by \<open>f\<close> as doubles, and rounds the sum to a
  whole microsecond, ties to even. It raises \<open>OverflowError\<close> unless the number of whole
  days (rounded down) has magnitude at most 999999999. A NaN argument raises \<open>ValueError\<close>
  and an infinite one \<open>OverflowError\<close>, both from the conversion to an integer.
\<close>

type_synonym timedelta = int

definition round_half_even :: "rat \<Rightarrow> int" where
  "round_half_even q = (let (n, d) = quotient_of q in round_half_even_div n d)"

definition trunc :: "rat \<Rightarrow> int" where
  "trunc q = (if q < 0 then - \<lfloor>- q\<rfloor> else \<lfloor>q\<rfloor>)"

definition us_per_day :: int where
  "us_per_day = 86400000000"

definition microseconds_to_delta :: "int \<Rightarrow> error + timedelta" where
  "microseconds_to_delta us =
     (if \<bar>us div us_per_day\<bar> > 999999999 then Inl OverflowError else Inr us)"

definition timedelta_of :: "int \<Rightarrow> pyfloat \<Rightarrow> error + timedelta" where
  "timedelta_of us_per_unit x =
     (case x of
        NaN \<Rightarrow> Inl (ValueError ''cannot convert float NaN to integer'')
      | Infinite \<Rightarrow> Inl OverflowError
      | Finite v \<Rightarrow>
          (let intpart = trunc v;
               fracpart = v - of_int intpart
           in if fracpart = 0 then microseconds_to_delta (intpart * us_per_unit)
              else
                (case round_double (of_int us_per_unit * fracpart) of
                   Finite p \<Rightarrow>
                     microseconds_to_delta
                       (round_half_even (of_int (intpart * us_per_unit) + p))
                 | _ \<Rightarrow> Inl OverflowError)))"

definition timedelta_seconds :: "pyfloat \<Rightarrow> error + timedelta" where
  "timedelta_seconds = timedelta_of 1000000"

definition timedelta_minutes :: "pyfloat \<Rightarrow> error + timedelta" where
  "timedelta_minutes = timedelta_of 60000000"

definition timedelta_hours :: "pyfloat \<Rightarrow> error + timedelta" where
  "timedelta_hours = timedelta_of 3600000000"

section \<open>\<open>parse_time_delta\<close>\<close>

text \<open>
  The function lowers and strips the text, splits it once at whitespace, raises
  \<open>ValueError\<close> when there is no part or when \<open>float\<close> rejects the first part, and selects
  the unit by the prefix of the second part, seconds being the fallback.
\<close>

definition parse_time_delta :: "string \<Rightarrow> error + timedelta" where
  "parse_time_delta time_delta_str0 =
     (let time_delta_str = strip (lower time_delta_str0);
          parts = split_maxsplit1 time_delta_str
      in if length parts = 0 then
           Inl (ValueError (''Could not parse time delta: '' @ time_delta_str))
         else
           (case py_float (parts ! 0) of
              None \<Rightarrow>
                Inl (ValueError
                  (''Could not parse numeric value in time delta: '' @ time_delta_str))
            | Some val \<Rightarrow>
                (let unit = (if length parts > 1 then parts ! 1 else [])
                 in if startswith unit ''sec'' then timedelta_seconds val
                    else if startswith unit ''min'' then timedelta_minutes val
                    else if startswith unit ''hour'' \<or> startswith unit ''hr''
                      then timedelta_hours val
                    else timedelta_seconds val)))"

section \<open>\<open>find_clusters\<close>\<close>

subsection \<open>Dates and photos\<close>

text \<open>
  A \<open>datetime\<close> is its wall-clock reading, in microseconds since 0001-01-01T00:00:00, and
  its fixed UTC offset in microseconds (zero for a naive one). Two dates are compared by
  the instants they denote. Adding a \<open>timedelta\<close> moves the wall clock and keeps the offset;
  it raises \<open>OverflowError\<close> when the result leaves the years 1 to 9999, which hold
  3652059 days.
\<close>

record datetime =
  wall :: int
  utcoffset :: int

definition instant :: "datetime \<Rightarrow> int" where
  "instant d = wall d - utcoffset d"

definition max_wall :: int where
  "max_wall = 3652059 * 86400000000"

definition dt_add :: "datetime \<Rightarrow> timedelta \<Rightarrow> error + datetime" where
  "dt_add d td =
     (if 0 \<le> wall d + td \<and> wall d + td < max_wall
      then Inr (d\<lparr>wall := wall d + td\<rparr>) else Inl OverflowError)"

text \<open>\<open>max(a, b)\<close> keeps its first argument unless the second is greater.\<close>

definition dt_max :: "datetime \<Rightarrow> datetime \<Rightarrow> datetime" where
  "dt_max a b = (if instant a < instant b then b else a)"

text \<open>
  Of a \<open>PhotoInfo\<close> the function reads the date, which may be \<open>None\<close>, and, for its
  progress messages only, the file name and size.
\<close>

record photo =
  filename :: string
  original_filesize :: nat
  date :: "datetime option"

text \<open>
  The timestamp of a photo that has a date. The function reads it only from photos that
  passed the filter on \<open>date is not None\<close>.
\<close>

definition stamp :: "photo \<Rightarrow> int" where
  "stamp p = instant (the (date p))"

subsection \<open>The two loops\<close>

text \<open>
  The inner \<open>while\<close>: from \<open>j\<close> on, photos are appended to the current cluster as long as
  their date is at most \<open>cluster_end_time\<close>, which each appended photo may push forward.
  It returns the final \<open>j\<close> and the cluster.
\<close>

function inner_loop ::
  "photo list \<Rightarrow> timedelta \<Rightarrow> nat \<Rightarrow> photo list \<Rightarrow> datetime \<Rightarrow> error + (nat \<times> photo list)"
where
  "inner_loop sorted_photos time_window j current_cluster cluster_end_time =
     (if j < length sorted_photos \<and> stamp (sorted_photos ! j) \<le> instant cluster_end_time
      then
        (let next_photo = sorted_photos ! j
         in case dt_add (the (date next_photo)) time_window of
              Inl e \<Rightarrow> Inl e
            | Inr t \<Rightarrow>
                inner_loop sorted_photos time_window (j + 1)
                  (current_cluster @ [next_photo]) (dt_max cluster_end_time t))
      else Inr (j, current_cluster))"
  by pat_completeness auto
termination
  by (relation "measure (\<lambda>(sorted_photos, time_window, j, current_cluster, cluster_end_time).
        length sorted_photos - j)") auto

declare inner_loop.simps [simp del]

text \<open>
  The outer \<open>while\<close>, with the cursor \<open>i\<close> and the clusters found so far. Whether it comes
  to an end is a property to be proved, so it is defined without assuming it: \<open>None\<close>
  stands for a run that never returns, \<open>Some (Inl e)\<close> for an exception and
  \<open>Some (Inr clusters)\<close> for the returned list.
\<close>

partial_function (option) clusters_loop ::
  "photo list \<Rightarrow> timedelta \<Rightarrow> nat \<Rightarrow> photo list list \<Rightarrow> (error + photo list list) option"
where
  "clusters_loop sorted_photos time_window i clusters =
     (if i < length sorted_photos then
        (let current_photo = sorted_photos ! i;
             current_cluster = [current_photo]
         in case dt_add (the (date current_photo)) time_window of
              Inl e \<Rightarrow> Some (Inl e)
            | Inr cluster_end_time \<Rightarrow>
                (case inner_loop sorted_photos time_window (i + 1)
                        current_cluster cluster_end_time of
                   Inl e \<Rightarrow> Some (Inl e)
                 | Inr (j, cluster) \<Rightarrow>
                     if length cluster > 1
                     then clusters_loop sorted_photos time_window j (clusters @ [cluster])
                     else clusters_loop sorted_photos time_window (i + 1) clusters))
      else Some (Inr clusters))"

declare clusters_loop.simps [code]

text \<open>\<open>sorted(valid_photos, key=lambda p: p.date)\<close> is a stable sort, as \<open>sort_key\<close> is.\<close>

definition find_clusters ::
  "photo list \<Rightarrow> timedelta \<Rightarrow> (error + photo list list) option"
where
  "find_clusters photos time_window =
     (if photos = [] then Some (Inr [])
      else
        (let valid_photos = filter (\<lambda>p. date p \<noteq> None) photos
         in if valid_photos = [] then Some (Inr [])
            else
              (let sorted_photos = sort_key stamp valid_photos
               in clusters_loop sorted_photos time_window 0 [])))"


section \<open>Notions used in the statements\<close>

text \<open>
  A cluster is \<open>chained\<close> when each of its records after the first has an earlier record
  of the cluster whose timestamp plus the window reaches it.
\<close>

definition chained :: "timedelta \<Rightarrow> photo list \<Rightarrow> bool" where
  "chained w c = (\<forall>m\<in>{1..<length c}. \<exists>l\<in>{0..<m}. stamp (c ! m) \<le> stamp (c ! l) + w)"

text \<open>
  A list of records is \<open>linked\<close> when any two consecutive ones are at most the window
  apart.
\<close>

definition linked :: "timedelta \<Rightarrow> photo list \<Rightarrow> bool" where
  "linked w path = successively (\<lambda>x y. \<bar>stamp y - stamp x\<bar> \<le> w) path"

subsection \<open>Example photos\<close>

text \<open>
  \<open>shot s\<close> is a photo taken \<open>s\<close> seconds after 2024-01-01T10:00:00 UTC, and \<open>undated\<close>
  one without a date.
\<close>

definition t0 :: int where
  "t0 = 63839700000000000"

definition shot :: "int \<Rightarrow> photo" where
  "shot s = \<lparr>filename = ''IMG'', original_filesize = 1,
              date = Some \<lparr>wall = t0 + s * 1000000, utcoffset = 0\<rparr>\<rparr>"

definition undated :: photo where
  "undated = \<lparr>filename = ''IMG'', original_filesize = 1, date = None\<rparr>"

section \<open>Auxiliary facts\<close>

subsection \<open>Subsequences\<close>

lemma subseq_sorted_map: "subseq xs ys \<Longrightarrow> sorted (map f ys) \<Longrightarrow> sorted (map f xs)"
proof (induction rule: list_emb.induct)
  case (list_emb_Cons xs ys y)
  then show ?case by simp
next
  case (list_emb_Cons2 x y xs ys)
  then have "set xs \<subseteq> set ys" by (auto dest: list_emb_set)
  with list_emb_Cons2 show ?case by auto
qed simp

lemma subseq_distinct_map: "subseq xs ys \<Longrightarrow> distinct (map f ys) \<Longrightarrow> distinct (map f xs)"
proof (induction rule: list_emb.induct)
  case (list_emb_Cons2 x y xs ys)
  then have "set xs \<subseteq> set ys" by (auto dest: list_emb_set)
  with list_emb_Cons2 show ?case by auto
qed simp_all

lemma subseq_mset: "subseq xs ys \<Longrightarrow> mset xs \<subseteq># mset ys"
proof (induction rule: list_emb.induct)
  case (list_emb_Cons xs ys y)
  from list_emb_Cons.IH have "mset xs \<subseteq># add_mset y (mset ys)"
    by (rule subset_mset.order_trans) simp
  then show ?case by simp
qed simp_all

subsection \<open>Dates\<close>

lemma instant_dt_add: "dt_add d w = Inr t \<Longrightarrow> instant t = instant d + w"
  by (auto simp: dt_add_def instant_def split: if_splits)

lemma instant_dt_max: "instant (dt_max a b) = max (instant a) (instant b)"
  by (simp add: dt_max_def)

lemma chained_snoc:
  assumes "chained w cl" and "p \<in> set cl" and "stamp q \<le> stamp p + w"
  shows "chained w (cl @ [q])"
  unfolding chained_def
proof
  fix m assume m: "m \<in> {1..<length (cl @ [q])}"
  show "\<exists>l\<in>{0..<m}. stamp ((cl @ [q]) ! m) \<le> stamp ((cl @ [q]) ! l) + w"
  proof (cases "m < length cl")
    case True
    with m assms(1) obtain l where "l < m" "stamp (cl ! m) \<le> stamp (cl ! l) + w"
      unfolding chained_def by force
    with True show ?thesis by (auto simp: nth_append intro!: bexI[of _ l])
  next
    case False
    with m have meq: "m = length cl" by simp
    from assms(2) obtain l where "l < length cl" "cl ! l = p"
      by (auto simp: in_set_conv_nth)
    with meq assms(3) show ?thesis by (auto simp: nth_append intro!: bexI[of _ l])
  qed
qed

lemma inner_loop_shape:
  "inner_loop xs w j cl e = Inr (j', cl') \<Longrightarrow>
   j \<le> j' \<and> j' \<le> max j (length xs) \<and> cl' = cl @ take (j' - j) (drop j xs)"
proof (induction xs w j cl e rule: inner_loop.induct)
  case (1 xs w j cl e)
  show ?case
  proof (cases "j < length xs \<and> stamp (xs ! j) \<le> instant e")
    case False
    with "1.prems" show ?thesis by (simp add: inner_loop.simps)
  next
    case True
    with "1.prems" obtain t where t: "dt_add (the (date (xs ! j))) w = Inr t"
      and rec: "inner_loop xs w (j + 1) (cl @ [xs ! j]) (dt_max e t) = Inr (j', cl')"
      by (subst (asm) inner_loop.simps) (auto simp: Let_def split: sum.splits)
    from "1.IH"[OF True refl t rec]
    have ih: "j + 1 \<le> j'" "j' \<le> max (j + 1) (length xs)"
      "cl' = (cl @ [xs ! j]) @ take (j' - (j + 1)) (drop (j + 1) xs)" by simp_all
    from True have jl: "j < length xs" by simp
    from ih(1) have "j' - j = Suc (j' - (j + 1))" by simp
    then have "take (j' - j) (drop j xs) = xs ! j # take (j' - (j + 1)) (drop (j + 1) xs)"
      using jl by (simp add: Cons_nth_drop_Suc[symmetric])
    with ih jl show ?thesis by simp
  qed
qed

lemma inner_loop_chained:
  "inner_loop xs w j cl e = Inr (j', cl') \<Longrightarrow> chained w cl \<Longrightarrow>
   \<exists>p\<in>set cl. instant e \<le> stamp p + w \<Longrightarrow> chained w cl'"
proof (induction xs w j cl e rule: inner_loop.induct)
  case (1 xs w j cl e)
  show ?case
  proof (cases "j < length xs \<and> stamp (xs ! j) \<le> instant e")
    case False
    with "1.prems" show ?thesis by (simp add: inner_loop.simps)
  next
    case True
    with "1.prems"(1) obtain t where t: "dt_add (the (date (xs ! j))) w = Inr t"
      and rec: "inner_loop xs w (j + 1) (cl @ [xs ! j]) (dt_max e t) = Inr (j', cl')"
      by (subst (asm) inner_loop.simps) (auto simp: Let_def split: sum.splits)
    from "1.prems"(3) obtain p where p: "p \<in> set cl" "instant e \<le> stamp p + w" by blast
    with True have "stamp (xs ! j) \<le> stamp p + w" by simp
    with "1.prems"(2) p(1) have ch: "chained w (cl @ [xs ! j])" by (rule chained_snoc)
    have "instant t = stamp (xs ! j) + w"
      using instant_dt_add[OF t] by (simp add: stamp_def)
    with p have "\<exists>p\<in>set (cl @ [xs ! j]). instant (dt_max e t) \<le> stamp p + w"
      by (auto simp: instant_dt_max max_def)
    from "1.IH"[OF True refl t rec ch this] show ?thesis .
  qed
qed

subsection \<open>The outer loop\<close>

lemma clusters_loop_done:
  "\<not> i < length xs \<Longrightarrow> clusters_loop xs w i acc = Some (Inr acc)"
  by (subst clusters_loop.simps) simp

lemma clusters_loop_step:
  "i < length xs \<Longrightarrow>
   clusters_loop xs w i acc =
     (case dt_add (the (date (xs ! i))) w of
        Inl e \<Rightarrow> Some (Inl e)
      | Inr e \<Rightarrow>
          (case inner_loop xs w (i + 1) [xs ! i] e of
             Inl e \<Rightarrow> Some (Inl e)
           | Inr (j, c) \<Rightarrow>
               if length c > 1 then clusters_loop xs w j (acc @ [c])
               else clusters_loop xs w (i + 1) acc))"
  by (subst clusters_loop.simps) (simp add: Let_def)

lemma inner_loop_cursor:
  assumes "i < length xs" and "inner_loop xs w (i + 1) [xs ! i] e = Inr (j, c)"
  shows "i + 1 \<le> j" and "j \<le> length xs" and "c = take (j - i) (drop i xs)"
proof -
  from inner_loop_shape[OF assms(2)]
  have s: "i + 1 \<le> j" "j \<le> max (i + 1) (length xs)"
    "c = [xs ! i] @ take (j - (i + 1)) (drop (i + 1) xs)" by simp_all
  show "i + 1 \<le> j" by fact
  from s(2) assms(1) show "j \<le> length xs" by simp
  from s(1) have "j - i = Suc (j - (i + 1))" by simp
  with assms(1) s(3) show "c = take (j - i) (drop i xs)"
    by (simp add: Cons_nth_drop_Suc[symmetric])
qed

lemma clusters_loop_total: "\<exists>r. clusters_loop xs w i acc = Some r"
proof (induction "length xs - i" arbitrary: i acc rule: less_induct)
  case less
  show ?case
  proof (cases "i < length xs")
    case False
    then show ?thesis by (simp add: clusters_loop_done)
  next
    case True
    note step = clusters_loop_step[OF True, of w acc]
    show ?thesis
    proof (cases "dt_add (the (date (xs ! i))) w")
      case (Inl e)
      with step show ?thesis by simp
    next
      case (Inr e)
      show ?thesis
      proof (cases "inner_loop xs w (i + 1) [xs ! i] e")
        case (Inl e')
        with step Inr show ?thesis by simp
      next
        case inner: (Inr r)
        obtain j c where r: "r = (j, c)" by (cases r)
        from inner_loop_cursor(1)[OF True inner[unfolded r]] True
        have "length xs - j < length xs - i" "length xs - (i + 1) < length xs - i"
          by simp_all
        from less[OF this(1)] less[OF this(2)] step Inr inner r
        show ?thesis by simp
      qed
    qed
  qed
qed

lemma clusters_loop_Inr:
  "clusters_loop xs w i acc = Some (Inr cs) \<Longrightarrow>
   \<exists>new. cs = acc @ new \<and> subseq (concat new) (drop i xs) \<and>
         (\<forall>c\<in>set new. 2 \<le> length c \<and> chained w c)"
proof (induction "length xs - i" arbitrary: i acc rule: less_induct)
  case less
  show ?case
  proof (cases "i < length xs")
    case False
    with less.prems show ?thesis by (simp add: clusters_loop_done)
  next
    case True
    note step = clusters_loop_step[OF True, of w acc]
    from less.prems step obtain e where e: "dt_add (the (date (xs ! i))) w = Inr e"
      by (cases "dt_add (the (date (xs ! i))) w") simp_all
    from less.prems step e obtain j c
      where inner: "inner_loop xs w (i + 1) [xs ! i] e = Inr (j, c)"
      by (cases "inner_loop xs w (i + 1) [xs ! i] e") auto
    note cur = inner_loop_cursor[OF True inner]
    show ?thesis
    proof (cases "length c > 1")
      case long: True
      with less.prems step e inner
      have rec: "clusters_loop xs w j (acc @ [c]) = Some (Inr cs)" by simp
      from cur(1) True have "length xs - j < length xs - i" by simp
      from less.hyps[OF this rec] obtain new where new: "cs = (acc @ [c]) @ new"
        "subseq (concat new) (drop j xs)" "\<forall>c\<in>set new. 2 \<le> length c \<and> chained w c"
        by blast
      have "instant e = stamp (xs ! i) + w"
        using instant_dt_add[OF e] by (simp add: stamp_def)
      then have "\<exists>p\<in>set [xs ! i]. instant e \<le> stamp p + w" by simp
      moreover have "chained w [xs ! i]" by (simp add: chained_def)
      ultimately have ch: "chained w c" using inner_loop_chained[OF inner] by blast
      have "drop i xs = take (j - i) (drop i xs) @ drop (j - i) (drop i xs)"
        by (simp only: append_take_drop_id)
      also have "drop (j - i) (drop i xs) = drop j xs" using cur(1) by simp
      finally have "drop i xs = c @ drop j xs" using cur(3) by simp
      with new(2) have "subseq (concat (c # new)) (drop i xs)" by (simp add: subseq_append')
      with new ch long show ?thesis by (intro exI[of _ "c # new"]) auto
    next
      case short: False
      with less.prems step e inner
      have rec: "clusters_loop xs w (i + 1) acc = Some (Inr cs)" by simp
      from True have "length xs - (i + 1) < length xs - i" by simp
      from less.hyps[OF this rec] obtain new where new: "cs = acc @ new"
        "subseq (concat new) (drop (i + 1) xs)" "\<forall>c\<in>set new. 2 \<le> length c \<and> chained w c"
        by blast
      from True have "drop i xs = xs ! i # drop (i + 1) xs"
        by (simp add: Cons_nth_drop_Suc)
      with new(2) have "subseq (concat new) (drop i xs)" by (simp add: list_emb_Cons)
      with new show ?thesis by blast
    qed
  qed
qed

subsection \<open>The function as a whole\<close>

lemma find_clusters_Inr:
  assumes "find_clusters photos w = Some (Inr cs)"
  shows "subseq (concat cs) (sort_key stamp (filter (\<lambda>p. date p \<noteq> None) photos))"
    and "\<forall>c\<in>set cs. 2 \<le> length c \<and> chained w c"
proof -
  let ?xs = "sort_key stamp (filter (\<lambda>p. date p \<noteq> None) photos)"
  have "subseq (concat cs) ?xs \<and> (\<forall>c\<in>set cs. 2 \<le> length c \<and> chained w c)"
  proof (cases "photos = [] \<or> filter (\<lambda>p. date p \<noteq> None) photos = []")
    case True
    with assms have "cs = []" by (auto simp: find_clusters_def Let_def split: if_splits)
    then show ?thesis by simp
  next
    case False
    with assms have "clusters_loop ?xs w 0 [] = Some (Inr cs)"
      by (simp add: find_clusters_def Let_def)
    from clusters_loop_Inr[OF this] show ?thesis by simp
  qed
  then show "subseq (concat cs) ?xs" and "\<forall>c\<in>set cs. 2 \<le> length c \<and> chained w c"
    by simp_all
qed

lemma find_clusters_total: "\<exists>r. find_clusters photos w = Some r"
  by (simp add: find_clusters_def Let_def clusters_loop_total)

lemma distinct_concat_disjoint:
  "distinct (concat cs) \<Longrightarrow> a < b \<Longrightarrow> b < length cs \<Longrightarrow> set (cs ! a) \<inter> set (cs ! b) = {}"
proof (induction cs arbitrary: a b)
  case Nil
  then show ?case by simp
next
  case (Cons c cs)
  from Cons.prems(2) obtain b' where b': "b = Suc b'" by (cases b) auto
  show ?case
  proof (cases a)
    case 0
    from Cons.prems(3) b' have "cs ! b' \<in> set cs" by simp
    with Cons.prems(1) 0 b' show ?thesis by auto
  next
    case (Suc a')
    with Cons b' show ?thesis by simp
  qed
qed

lemma sorted_concat_heads:
  "sorted (map f (concat cs)) \<Longrightarrow> \<forall>c\<in>set cs. c \<noteq> [] \<Longrightarrow> sorted (map (\<lambda>c. f (hd c)) cs)"
proof (induction cs)
  case Nil
  then show ?case by simp
next
  case (Cons c cs)
  from Cons.prems(2) obtain x c' where c: "c = x # c'" by (cases c) auto
  have "\<forall>d\<in>set cs. f x \<le> f (hd d)"
  proof
    fix d assume d: "d \<in> set cs"
    with Cons.prems(2) have "hd d \<in> set d" by simp
    with d have "hd d \<in> set (concat cs)" by auto
    with Cons.prems(1) c show "f x \<le> f (hd d)" by (auto simp: sorted_append)
  qed
  moreover from Cons have "sorted (map (\<lambda>c. f (hd c)) cs)" by (simp add: sorted_append)
  ultimately show ?case using c by simp
qed

lemma sorted_concat_each:
  "sorted (map f (concat cs)) \<Longrightarrow> c \<in> set cs \<Longrightarrow> sorted (map f c)"
  by (induction cs) (auto simp: sorted_append)

subsection \<open>Chains in sorted clusters\<close>

lemma sorted_map_nth:
  assumes "sorted (map f xs)" and "i \<le> j" and "j < length xs"
  shows "f (xs ! i) \<le> f (xs ! j)"
  using sorted_nth_mono[of "map f xs" i j] assms by simp

lemma chained_gap:
  assumes ch: "chained w c" and so: "sorted (map stamp c)" and m: "Suc m < length c"
  shows "stamp (c ! Suc m) \<le> stamp (c ! m) + w"
proof -
  from ch m obtain l where l: "l < Suc m" "stamp (c ! Suc m) \<le> stamp (c ! l) + w"
    unfolding chained_def by force
  from l(1) m have "stamp (c ! l) \<le> stamp (c ! m)"
    by (intro sorted_map_nth[OF so]) simp_all
  with l(2) show ?thesis by simp
qed

lemma linked_slice:
  assumes ch: "chained w c" and so: "sorted (map stamp c)" and pq: "p \<le> q" "q < length c"
  shows "linked w (take (Suc (q - p)) (drop p c))"
  unfolding linked_def successively_conv_nth
proof (intro allI impI)
  fix i assume i: "Suc i < length (take (Suc (q - p)) (drop p c))"
  with pq have b: "Suc (p + i) < length c" by simp
  from i have e: "take (Suc (q - p)) (drop p c) ! i = c ! (p + i)"
    "take (Suc (q - p)) (drop p c) ! Suc i = c ! Suc (p + i)" using pq by simp_all
  from chained_gap[OF ch so b] have "stamp (c ! Suc (p + i)) \<le> stamp (c ! (p + i)) + w" .
  moreover from b have "stamp (c ! (p + i)) \<le> stamp (c ! Suc (p + i))"
    by (intro sorted_map_nth[OF so]) simp_all
  ultimately show "\<bar>stamp (take (Suc (q - p)) (drop p c) ! Suc i) -
        stamp (take (Suc (q - p)) (drop p c) ! i)\<bar> \<le> w"
    unfolding e by simp
qed

subsection \<open>Windows that are zero or negative\<close>







subsection \<open>Exceptions of \<open>find_clusters\<close>\<close>







subsection \<open>The parser\<close>

lemma startswith_Cons:
  "startswith s (c # p) \<longleftrightarrow> (\<exists>r. s = c # r \<and> startswith r p)"
  by (cases s) (auto simp: startswith_def)

lemma unit_prefixes_exclusive:
  "\<not> (startswith u ''sec'' \<and> startswith u ''min'')"
  "\<not> (startswith u ''sec'' \<and> (startswith u ''hour'' \<or> startswith u ''hr''))"
  "\<not> (startswith u ''min'' \<and> (startswith u ''hour'' \<or> startswith u ''hr''))"
  by (auto simp: startswith_Cons)


section \<open>The claims about \<open>find_clusters\<close>\<close>

text \<open>
  C4. Every cluster returned by \<open>find_clusters\<close>, before any minimum-size filter of the
  caller, holds at least two records; no cluster of size one is returned.
\<close>

theorem clusters_have_two_records:
  "find_clusters photos w = Some (Inr cs) \<Longrightarrow> \<forall>c\<in>set cs. 2 \<le> length c \<and> length c \<noteq> 1"
  using find_clusters_Inr(2) by fastforce

theorem clusters_have_two_records_witness:
  "find_clusters [shot 300, shot 30, undated, shot 0, shot 60] 60000000 =
     Some (Inr [[shot 0, shot 30, shot 60]]) \<and>
   2 \<le> length [shot 0, shot 30, shot 60] \<and> length [shot 0, shot 30, shot 60] \<noteq> 1"
proof -
  have h: "find_clusters [shot 300, shot 30, undated, shot 0, shot 60] 60000000 =
     Some (Inr [[shot 0, shot 30, shot 60]])" by code_simp
  from clusters_have_two_records[OF h] h show ?thesis by simp
qed

text \<open>
  C3. Each returned cluster is sorted ascending by timestamp, and the clusters appear in
  ascending order of the timestamp of their first record.
\<close>

theorem clusters_ordered:
  assumes "find_clusters photos w = Some (Inr cs)"
  shows "(\<forall>c\<in>set cs. sorted (map stamp c)) \<and> sorted (map (\<lambda>c. stamp (hd c)) cs)"
proof -
  have "sorted (map stamp (sort_key stamp (filter (\<lambda>p. date p \<noteq> None) photos)))"
    by simp
  with find_clusters_Inr(1)[OF assms] have s: "sorted (map stamp (concat cs))"
    by (rule subseq_sorted_map)
  from find_clusters_Inr(2)[OF assms] have "\<forall>c\<in>set cs. c \<noteq> []" by auto
  with s have "sorted (map (\<lambda>c. stamp (hd c)) cs)" by (rule sorted_concat_heads)
  moreover from s have "\<forall>c\<in>set cs. sorted (map stamp c)"
    by (auto intro: sorted_concat_each)
  ultimately show ?thesis by simp
qed

theorem clusters_ordered_witness:
  "find_clusters [shot 500, shot 210, shot 30, undated, shot 200, shot 0] 60000000 =
     Some (Inr [[shot 0, shot 30], [shot 200, shot 210]]) \<and>
   sorted (map stamp [shot 0, shot 30]) \<and> sorted (map stamp [shot 200, shot 210]) \<and>
   sorted [stamp (shot 0), stamp (shot 200)]"
proof -
  have h: "find_clusters [shot 500, shot 210, shot 30, undated, shot 200, shot 0] 60000000 =
     Some (Inr [[shot 0, shot 30], [shot 200, shot 210]])" by code_simp
  from clusters_ordered[OF h] h show ?thesis by simp
qed

text \<open>
  C2. The returned clusters share no record occurrence: taken together they hold each
  record at most as often as the input holds it with a date, so a record with a date is
  in one cluster or in none, and the records left out are just absent from the result.
  When the input lists every record once, the clusters are pairwise disjoint.
\<close>

theorem clusters_disjoint:
  assumes "find_clusters photos w = Some (Inr cs)"
  shows "mset (concat cs) \<subseteq># mset (filter (\<lambda>p. date p \<noteq> None) photos) \<and>
         (distinct photos \<longrightarrow>
            distinct (concat cs) \<and>
            (\<forall>a b. a < b \<and> b < length cs \<longrightarrow> set (cs ! a) \<inter> set (cs ! b) = {}))"
proof -
  let ?xs = "sort_key stamp (filter (\<lambda>p. date p \<noteq> None) photos)"
  note sub = find_clusters_Inr(1)[OF assms]
  from subseq_mset[OF sub]
  have m: "mset (concat cs) \<subseteq># mset (filter (\<lambda>p. date p \<noteq> None) photos)"
    by simp
  have "distinct (concat cs)" if "distinct photos"
  proof -
    from that have "distinct (map (\<lambda>p. p) ?xs)" by simp
    with sub have "distinct (map (\<lambda>p. p) (concat cs))" by (rule subseq_distinct_map)
    then show ?thesis by simp
  qed
  with m show ?thesis by (auto dest: distinct_concat_disjoint)
qed

theorem clusters_disjoint_witness:
  "find_clusters [shot 500, shot 210, shot 30, undated, shot 200, shot 0] 60000000 =
     Some (Inr [[shot 0, shot 30], [shot 200, shot 210]]) \<and>
   distinct [shot 500, shot 210, shot 30, undated, shot 200, shot 0] \<and>
   mset [shot 0, shot 30, shot 200, shot 210] \<subseteq>#
     mset [shot 500, shot 210, shot 30, shot 200, shot 0] \<and>
   distinct [shot 0, shot 30, shot 200, shot 210] \<and>
   set [shot 0, shot 30] \<inter> set [shot 200, shot 210] = {}"
proof -
  have h: "find_clusters [shot 500, shot 210, shot 30, undated, shot 200, shot 0] 60000000 =
     Some (Inr [[shot 0, shot 30], [shot 200, shot 210]])" by code_simp
  have d: "distinct [shot 500, shot 210, shot 30, undated, shot 200, shot 0]" by code_simp
  have f: "filter (\<lambda>p. date p \<noteq> None) [shot 500, shot 210, shot 30, undated, shot 200, shot 0] =
     [shot 500, shot 210, shot 30, shot 200, shot 0]" by code_simp
  from clusters_disjoint[OF h] d
  have "mset (concat [[shot 0, shot 30], [shot 200, shot 210]]) \<subseteq>#
          mset (filter (\<lambda>p. date p \<noteq> None)
                  [shot 500, shot 210, shot 30, undated, shot 200, shot 0])"
    and "distinct (concat [[shot 0, shot 30], [shot 200, shot 210]])"
    and "\<forall>a b. a < b \<and> b < length [[shot 0, shot 30], [shot 200, shot 210]] \<longrightarrow>
           set ([[shot 0, shot 30], [shot 200, shot 210]] ! a) \<inter>
           set ([[shot 0, shot 30], [shot 200, shot 210]] ! b) = {}"
    by blast+
  from this(1)[unfolded f] this(2) this(3)[rule_format, of 0 1] h d
  show ?thesis by simp
qed

text \<open>
  C9. \<open>find_clusters\<close> returns the empty list when the input is empty or no record has a
  date, and a record without a date is in no returned cluster.
\<close>

theorem undated_photos_excluded:
  "(photos = [] \<or> (\<forall>p\<in>set photos. date p = None) \<longrightarrow> find_clusters photos w = Some (Inr [])) \<and>
   (find_clusters photos w = Some (Inr cs) \<longrightarrow> (\<forall>c\<in>set cs. \<forall>p\<in>set c. date p \<noteq> None))"
proof
  show "photos = [] \<or> (\<forall>p\<in>set photos. date p = None) \<longrightarrow> find_clusters photos w = Some (Inr [])"
  proof
    assume "photos = [] \<or> (\<forall>p\<in>set photos. date p = None)"
    then have "photos = [] \<or> filter (\<lambda>p. date p \<noteq> None) photos = []"
      by (auto simp: filter_empty_conv)
    then show "find_clusters photos w = Some (Inr [])"
      by (auto simp: find_clusters_def Let_def)
  qed
  show "find_clusters photos w = Some (Inr cs) \<longrightarrow> (\<forall>c\<in>set cs. \<forall>p\<in>set c. date p \<noteq> None)"
  proof
    assume a: "find_clusters photos w = Some (Inr cs)"
    from subseq_mset[OF find_clusters_Inr(1)[OF a]]
    have "set_mset (mset (concat cs)) \<subseteq>
          set_mset (mset (sort_key stamp (filter (\<lambda>p. date p \<noteq> None) photos)))"
      by (rule set_mset_mono)
    then have "set (concat cs) \<subseteq> set (filter (\<lambda>p. date p \<noteq> None) photos)"
      by simp
    then show "\<forall>c\<in>set cs. \<forall>p\<in>set c. date p \<noteq> None" by auto
  qed
qed

theorem undated_photos_excluded_witness:
  "find_clusters [undated, undated] 60000000 = Some (Inr []) \<and>
   find_clusters [shot 300, shot 30, undated, shot 0, shot 60] 60000000 =
     Some (Inr [[shot 0, shot 30, shot 60]]) \<and>
   date (shot 0) \<noteq> None \<and> date (shot 30) \<noteq> None \<and> date (shot 60) \<noteq> None"
proof -
  have u: "\<forall>p\<in>set [undated, undated]. date p = None" by (simp add: undated_def)
  have h: "find_clusters [shot 300, shot 30, undated, shot 0, shot 60] 60000000 =
     Some (Inr [[shot 0, shot 30, shot 60]])" by code_simp
  from undated_photos_excluded[of "[undated, undated]" 60000000] u
  have e: "find_clusters [undated, undated] 60000000 = Some (Inr [])" by blast
  from undated_photos_excluded[of "[shot 300, shot 30, undated, shot 0, shot 60]" 60000000
      "[[shot 0, shot 30, shot 60]]"] h
  have "\<forall>c\<in>set [[shot 0, shot 30, shot 60]]. \<forall>p\<in>set c. date p \<noteq> None" by blast
  with e h show ?thesis by simp
qed

text \<open>
  C10. The scanning loop of \<open>find_clusters\<close> comes to an end for every list of records and
  every window, zero and negative ones included: the function always returns or raises.
  Each round of the loop moves the cursor \<open>i\<close> forward, to \<open>j \<ge> i + 1\<close> when a cluster is
  emitted and to \<open>i + 1\<close> otherwise, and never beyond the end of the list.
\<close>

theorem find_clusters_terminates:
  "(\<exists>r. find_clusters photos w = Some r) \<and>
   (i < length xs \<and> dt_add (the (date (xs ! i))) w = Inr e \<and>
    inner_loop xs w (i + 1) [xs ! i] e = Inr (j, c) \<longrightarrow>
      i + 1 \<le> j \<and> j \<le> length xs \<and>
      clusters_loop xs w i acc =
        (if length c > 1 then clusters_loop xs w j (acc @ [c])
         else clusters_loop xs w (i + 1) acc))"
proof (intro conjI impI)
  show "\<exists>r. find_clusters photos w = Some r" by (rule find_clusters_total)
next
  assume a: "i < length xs \<and> dt_add (the (date (xs ! i))) w = Inr e \<and>
    inner_loop xs w (i + 1) [xs ! i] e = Inr (j, c)"
  then have il: "i < length xs" and inner: "inner_loop xs w (i + 1) [xs ! i] e = Inr (j, c)"
    by simp_all
  from inner_loop_cursor(1,2)[OF il inner] show "i + 1 \<le> j" and "j \<le> length xs" .
  from a show "clusters_loop xs w i acc =
        (if length c > 1 then clusters_loop xs w j (acc @ [c])
         else clusters_loop xs w (i + 1) acc)"
    by (simp add: clusters_loop_step)
qed

theorem find_clusters_terminates_witness:
  "(\<exists>r. find_clusters [shot 60, shot 0, shot 30] 60000000 = Some r) \<and>
   (0::nat) < length [shot 0, shot 30, shot 100] \<and>
   dt_add (the (date ([shot 0, shot 30, shot 100] ! 0))) 60000000 =
     Inr \<lparr>wall = t0 + 60000000, utcoffset = 0\<rparr> \<and>
   inner_loop [shot 0, shot 30, shot 100] 60000000 (0 + 1) [[shot 0, shot 30, shot 100] ! 0]
     \<lparr>wall = t0 + 60000000, utcoffset = 0\<rparr> = Inr (2, [shot 0, shot 30]) \<and>
   (0::nat) + 1 \<le> 2 \<and> (2::nat) \<le> length [shot 0, shot 30, shot 100] \<and>
   clusters_loop [shot 0, shot 30, shot 100] 60000000 0 [] =
     clusters_loop [shot 0, shot 30, shot 100] 60000000 2 ([] @ [[shot 0, shot 30]])"
proof -
  have d: "dt_add (the (date ([shot 0, shot 30, shot 100] ! 0))) 60000000 =
     Inr \<lparr>wall = t0 + 60000000, utcoffset = 0\<rparr>" by code_simp
  have n: "inner_loop [shot 0, shot 30, shot 100] 60000000 (0 + 1)
     [[shot 0, shot 30, shot 100] ! 0] \<lparr>wall = t0 + 60000000, utcoffset = 0\<rparr> =
     Inr (2, [shot 0, shot 30])" by code_simp
  have l: "(0::nat) < length [shot 0, shot 30, shot 100]" by simp
  from find_clusters_terminates[where photos = "[shot 60, shot 0, shot 30]"
      and w = 60000000 and i = 0 and xs = "[shot 0, shot 30, shot 100]"
      and e = "\<lparr>wall = t0 + 60000000, utcoffset = 0\<rparr>"
      and j = 2 and c = "[shot 0, shot 30]" and acc = "[]"] d n l
  show ?thesis by simp
qed

text \<open>
  C1. In every returned cluster each record after the first has an earlier record of the
  same cluster whose timestamp plus the window is at least its own; and any two records
  of a cluster, the first earlier than the second, are joined by a path of records of the
  cluster in which consecutive records are no more than the window apart.
\<close>

theorem cluster_chain_window:
  assumes "find_clusters photos w = Some (Inr cs)" and "c \<in> set cs"
  shows "chained w c \<and>
         (\<forall>a\<in>set c. \<forall>b\<in>set c. stamp a < stamp b \<longrightarrow>
            (\<exists>path. path \<noteq> [] \<and> hd path = a \<and> last path = b \<and>
                    set path \<subseteq> set c \<and> linked w path))"
proof -
  from find_clusters_Inr(2)[OF assms(1)] assms(2) have ch: "chained w c" by simp
  have "sorted (map stamp (sort_key stamp (filter (\<lambda>p. date p \<noteq> None) photos)))"
    by simp
  with find_clusters_Inr(1)[OF assms(1)] have "sorted (map stamp (concat cs))"
    by (rule subseq_sorted_map)
  with assms(2) have so: "sorted (map stamp c)" by (rule sorted_concat_each[rotated])
  have "\<exists>path. path \<noteq> [] \<and> hd path = a \<and> last path = b \<and> set path \<subseteq> set c \<and> linked w path"
    if a: "a \<in> set c" and b: "b \<in> set c" and lt: "stamp a < stamp b" for a b
  proof -
    from a obtain p where p: "p < length c" "c ! p = a" by (auto simp: in_set_conv_nth)
    from b obtain q where q: "q < length c" "c ! q = b" by (auto simp: in_set_conv_nth)
    have pq: "p \<le> q"
    proof (rule ccontr)
      assume "\<not> p \<le> q"
      with p have "stamp (c ! q) \<le> stamp (c ! p)"
        by (intro sorted_map_nth[OF so]) simp_all
      with p q have "stamp b \<le> stamp a" by simp
      with lt show False by simp
    qed
    let ?path = "take (Suc (q - p)) (drop p c)"
    from pq q(1) have len: "length ?path = Suc (q - p)" by simp
    then have ne: "?path \<noteq> []" by auto
    have "hd ?path = ?path ! 0" using ne by (simp add: hd_conv_nth)
    also have "\<dots> = a" using p pq q(1) by simp
    finally have h: "hd ?path = a" .
    have "last ?path = ?path ! (q - p)" using ne len by (simp add: last_conv_nth)
    also have "\<dots> = b" using q pq by simp
    finally have l: "last ?path = b" .
    have "set ?path \<subseteq> set c"
      by (meson set_take_subset set_drop_subset subset_trans)
    with ne h l linked_slice[OF ch so pq q(1)] show ?thesis by blast
  qed
  with ch show ?thesis by blast
qed

theorem cluster_chain_window_witness:
  "find_clusters [shot 300, shot 30, undated, shot 0, shot 60] 60000000 =
     Some (Inr [[shot 0, shot 30, shot 60]]) \<and>
   stamp (shot 0) < stamp (shot 60) \<and>
   stamp (shot 30) \<le> stamp (shot 0) + 60000000 \<and>
   (\<exists>path. path \<noteq> [] \<and> hd path = shot 0 \<and> last path = shot 60 \<and>
      set path \<subseteq> set [shot 0, shot 30, shot 60] \<and> linked 60000000 path)"
proof -
  have h: "find_clusters [shot 300, shot 30, undated, shot 0, shot 60] 60000000 =
     Some (Inr [[shot 0, shot 30, shot 60]])" by code_simp
  have lt: "stamp (shot 0) < stamp (shot 60)" by code_simp
  from cluster_chain_window[OF h, of "[shot 0, shot 30, shot 60]"]
  have ch: "chained 60000000 [shot 0, shot 30, shot 60]"
    and pa: "\<forall>a\<in>set [shot 0, shot 30, shot 60]. \<forall>b\<in>set [shot 0, shot 30, shot 60].
      stamp a < stamp b \<longrightarrow>
        (\<exists>path. path \<noteq> [] \<and> hd path = a \<and> last path = b \<and>
           set path \<subseteq> set [shot 0, shot 30, shot 60] \<and> linked 60000000 path)"
    by simp_all
  from ch have g: "stamp (shot 30) \<le> stamp (shot 0) + 60000000"
    unfolding chained_def by (auto dest!: bspec[of _ _ 1])
  from pa lt have "\<exists>path. path \<noteq> [] \<and> hd path = shot 0 \<and> last path = shot 60 \<and>
      set path \<subseteq> set [shot 0, shot 30, shot 60] \<and> linked 60000000 path"
    by simp
  with h lt g show ?thesis by simp
qed



section \<open>The claims about \<open>parse_time_delta\<close>\<close>

text \<open>
  C7. When \<open>parse_time_delta\<close> returns a duration, the unit was resolved by prefix: a
  unit that starts with \<open>sec\<close> gives seconds, one that starts with \<open>min\<close> minutes, one
  that starts with \<open>hour\<close> or \<open>hr\<close> hours, and any other unit, a missing one included,
  seconds. In particular \<open>45\<close> is 45 seconds and \<open>2 hrs\<close> is 7200 seconds.
\<close>

theorem unit_resolution:
  assumes "parse_time_delta s = Inr d"
  shows "(\<exists>v u. py_float (split_maxsplit1 (strip (lower s)) ! 0) = Some v \<and>
           u = (if length (split_maxsplit1 (strip (lower s))) > 1
                then split_maxsplit1 (strip (lower s)) ! 1 else []) \<and>
           (startswith u ''sec'' \<longrightarrow> timedelta_seconds v = Inr d) \<and>
           (startswith u ''min'' \<longrightarrow> timedelta_minutes v = Inr d) \<and>
           (startswith u ''hour'' \<or> startswith u ''hr'' \<longrightarrow> timedelta_hours v = Inr d) \<and>
           (\<not> startswith u ''sec'' \<and> \<not> startswith u ''min'' \<and>
            \<not> startswith u ''hour'' \<and> \<not> startswith u ''hr'' \<longrightarrow>
              timedelta_seconds v = Inr d)) \<and>
         parse_time_delta ''45'' = Inr 45000000 \<and>
         parse_time_delta ''2 hrs'' = Inr 7200000000"
proof -
  define parts where "parts = split_maxsplit1 (strip (lower s))"
  define u where "u = (if length parts > 1 then parts ! 1 else [])"
  have p: "parse_time_delta s =
      (if length parts = 0 then
         Inl (ValueError (''Could not parse time delta: '' @ strip (lower s)))
       else
         (case py_float (parts ! 0) of
            None \<Rightarrow>
              Inl (ValueError
                (''Could not parse numeric value in time delta: '' @ strip (lower s)))
          | Some val \<Rightarrow>
              if startswith u ''sec'' then timedelta_seconds val
              else if startswith u ''min'' then timedelta_minutes val
              else if startswith u ''hour'' \<or> startswith u ''hr''
                then timedelta_hours val
              else timedelta_seconds val))"
    unfolding parse_time_delta_def Let_def parts_def u_def ..
  from assms p obtain v where v: "py_float (parts ! 0) = Some v"
    and r: "(if startswith u ''sec'' then timedelta_seconds v
      else if startswith u ''min'' then timedelta_minutes v
      else if startswith u ''hour'' \<or> startswith u ''hr'' then timedelta_hours v
      else timedelta_seconds v) = Inr d"
    by (cases "length parts = 0"; cases "py_float (parts ! 0)") simp_all
  note ex = unit_prefixes_exclusive[of u]
  have "(startswith u ''sec'' \<longrightarrow> timedelta_seconds v = Inr d) \<and>
        (startswith u ''min'' \<longrightarrow> timedelta_minutes v = Inr d) \<and>
        (startswith u ''hour'' \<or> startswith u ''hr'' \<longrightarrow> timedelta_hours v = Inr d) \<and>
        (\<not> startswith u ''sec'' \<and> \<not> startswith u ''min'' \<and>
         \<not> startswith u ''hour'' \<and> \<not> startswith u ''hr'' \<longrightarrow>
           timedelta_seconds v = Inr d)"
    using r ex by (auto split: if_splits)
  with v have "\<exists>v u. py_float (split_maxsplit1 (strip (lower s)) ! 0) = Some v \<and>
           u = (if length (split_maxsplit1 (strip (lower s))) > 1
                then split_maxsplit1 (strip (lower s)) ! 1 else []) \<and>
           (startswith u ''sec'' \<longrightarrow> timedelta_seconds v = Inr d) \<and>
           (startswith u ''min'' \<longrightarrow> timedelta_minutes v = Inr d) \<and>
           (startswith u ''hour'' \<or> startswith u ''hr'' \<longrightarrow> timedelta_hours v = Inr d) \<and>
           (\<not> startswith u ''sec'' \<and> \<not> startswith u ''min'' \<and>
            \<not> startswith u ''hour'' \<and> \<not> startswith u ''hr'' \<longrightarrow>
              timedelta_seconds v = Inr d)"
    unfolding parts_def u_def by blast
  moreover have "parse_time_delta ''45'' = Inr 45000000" by code_simp
  moreover have "parse_time_delta ''2 hrs'' = Inr 7200000000" by code_simp
  ultimately show ?thesis by (intro conjI)
qed

theorem unit_resolution_witness:
  "parse_time_delta ''2 hrs'' = Inr 7200000000 \<and> timedelta_hours (Finite 2) = Inr 7200000000 \<and>
   parse_time_delta ''90 sec'' = Inr 90000000 \<and> timedelta_seconds (Finite 90) = Inr 90000000 \<and>
   parse_time_delta ''1.5 min'' = Inr 90000000 \<and>
   timedelta_minutes (Finite (3 / 2)) = Inr 90000000 \<and>
   parse_time_delta ''3 days'' = Inr 3000000 \<and> timedelta_seconds (Finite 3) = Inr 3000000"
proof -
  have h: "parse_time_delta ''2 hrs'' = Inr 7200000000" by code_simp
  have hs: "split_maxsplit1 (strip (lower ''2 hrs'')) = [''2'', ''hrs'']" by code_simp
  have hf: "py_float ''2'' = Some (Finite 2)" by code_simp
  have hu: "startswith ''hrs'' ''hr''" by code_simp
  from unit_resolution[OF h] hf hu
  have 1: "timedelta_hours (Finite 2) = Inr 7200000000" unfolding hs by auto
  have s: "parse_time_delta ''90 sec'' = Inr 90000000" by code_simp
  have ss: "split_maxsplit1 (strip (lower ''90 sec'')) = [''90'', ''sec'']" by code_simp
  have sf: "py_float ''90'' = Some (Finite 90)" by code_simp
  have su: "startswith ''sec'' ''sec''" by code_simp
  from unit_resolution[OF s] sf su
  have 2: "timedelta_seconds (Finite 90) = Inr 90000000" unfolding ss by auto
  have m: "parse_time_delta ''1.5 min'' = Inr 90000000" by code_simp
  have ms: "split_maxsplit1 (strip (lower ''1.5 min'')) = [''1.5'', ''min'']" by code_simp
  have mf: "py_float ''1.5'' = Some (Finite (3 / 2))" by code_simp
  have mu: "startswith ''min'' ''min''" by code_simp
  from unit_resolution[OF m] mf mu
  have 3: "timedelta_minutes (Finite (3 / 2)) = Inr 90000000" unfolding ms by auto
  have d: "parse_time_delta ''3 days'' = Inr 3000000" by code_simp
  have ds: "split_maxsplit1 (strip (lower ''3 days'')) = [''3'', ''days'']" by code_simp
  have df: "py_float ''3'' = Some (Finite 3)" by code_simp
  have du: "\<not> startswith ''days'' ''sec''" "\<not> startswith ''days'' ''min''"
    "\<not> startswith ''days'' ''hour''" "\<not> startswith ''days'' ''hr''" by code_simp+
  from unit_resolution[OF d] df du
  have 4: "timedelta_seconds (Finite 3) = Inr 3000000" unfolding ds by auto
  from h s m d 1 2 3 4 show ?thesis by simp
qed

text \<open>
  C8. Parsing \<open>90 sec\<close> and parsing \<open>1.5 min\<close> give equal durations, both of exactly 90
  seconds.
\<close>

theorem equal_durations:
  "parse_time_delta ''90 sec'' = parse_time_delta ''1.5 min'' \<and>
   parse_time_delta ''90 sec'' = Inr 90000000 \<and>
   parse_time_delta ''1.5 min'' = Inr 90000000"
proof -
  have a: "parse_time_delta ''90 sec'' = Inr 90000000" by code_simp
  have b: "parse_time_delta ''1.5 min'' = Inr 90000000" by code_simp
  from a b show ?thesis by simp
qed




end
